theory Spec2Isabelle
  imports Main "HOL-Library.Sublist"
begin

section \<open>Catalog rows and de-duplication\<close>

text \<open>
  One row of \<open>parse_catalog\<close>'s result: the dict with the keys
  \<open>artikelnummer\<close>, \<open>benamning\<close>, \<open>kolumnrubriker\<close>, \<open>specifikationer\<close>.
\<close>

record product_row =
  artikelnummer :: string
  benamning :: string
  kolumnrubriker :: string
  specifikationer :: string

text \<open>
  The loop of \<open>main\<close> (lines 312-318): \<open>seen\<close> is the set of article numbers met so
  far, \<open>unique\<close> the list built by \<open>append\<close>.
\<close>

fun dedup_loop :: "string set \<Rightarrow> product_row list \<Rightarrow> product_row list \<Rightarrow> product_row list" where
  "dedup_loop seen unique [] = unique"
| "dedup_loop seen unique (row # results) =
     (if artikelnummer row \<notin> seen
      then dedup_loop (insert (artikelnummer row) seen) (unique @ [row]) results
      else dedup_loop seen unique results)"

definition deduplicate :: "product_row list \<Rightarrow> product_row list" where
  "deduplicate results = dedup_loop {} [] results"

text \<open>Position \<open>i\<close> holds the first row of \<open>rs\<close> with its article number.\<close>

definition first_occurrence :: "product_row list \<Rightarrow> nat \<Rightarrow> bool" where
  "first_occurrence rs i = (\<forall>j<i. artikelnummer (rs ! j) \<noteq> artikelnummer (rs ! i))"

section \<open>Characters and strings\<close>

text \<open>
  Strings are lists of \<^typ>\<open>char\<close>, read as the code points 0 to 255 (Latin-1); this
  covers every character the source's patterns and word list mention. The classes below
  are the ones Python's \<open>str\<close> methods and \<open>re\<close> (Unicode patterns) use, on that range.
\<close>

definition cp :: "char \<Rightarrow> nat" where
  "cp c = of_char c"

definition in_range :: "char \<Rightarrow> char \<Rightarrow> char \<Rightarrow> bool" where
  "in_range lo hi c = (cp lo \<le> cp c \<and> cp c \<le> cp hi)"

text \<open>\<open>str.isspace\<close>, \<open>\s\<close>: TAB to CR, FS to US, space, NEL and the no-break space.\<close>

definition is_space :: "char \<Rightarrow> bool" where
  "is_space c = ((9 \<le> cp c \<and> cp c \<le> 13) \<or> (28 \<le> cp c \<and> cp c \<le> 32) \<or> cp c = 133 \<or> cp c = 160)"

text \<open>\<open>\d\<close>: the decimal digits.\<close>

definition is_digit :: "char \<Rightarrow> bool" where
  "is_digit c = in_range CHR ''0'' CHR ''9'' c"

text \<open>
  \<open>\w\<close>: alphanumeric (\<open>str.isalnum\<close>) or underscore. Beyond ASCII these are the
  Latin-1 letters, the ordinal indicators, the micro sign, the superscript digits and the
  vulgar fractions.
\<close>

definition is_word :: "char \<Rightarrow> bool" where
  "is_word c =
     (is_digit c \<or> in_range CHR ''A'' CHR ''Z'' c \<or> in_range CHR ''a'' CHR ''z'' c \<or> c = CHR ''_''
      \<or> cp c \<in> {170, 178, 179, 181, 185, 186, 188, 189, 190}
      \<or> (192 \<le> cp c \<and> cp c \<le> 214) \<or> (216 \<le> cp c \<and> cp c \<le> 246) \<or> 248 \<le> cp c)"

text \<open>\<open>str.lower\<close> on one character: A to Z and the upper-case Latin-1 letters move by 32.\<close>

definition lower_char :: "char \<Rightarrow> char" where
  "lower_char c =
     (if in_range CHR ''A'' CHR ''Z'' c \<or> ((192 \<le> cp c \<and> cp c \<le> 222) \<and> cp c \<noteq> 215)
      then char_of (cp c + 32) else c)"

definition lower :: "string \<Rightarrow> string" where
  "lower s = map lower_char s"

definition lstrip :: "string \<Rightarrow> string" where
  "lstrip s = dropWhile is_space s"

definition rstrip :: "string \<Rightarrow> string" where
  "rstrip s = rev (dropWhile is_space (rev s))"

text \<open>\<open>s.strip()\<close>\<close>

definition strip :: "string \<Rightarrow> string" where
  "strip s = rstrip (lstrip s)"

text \<open>\<open>s.lstrip(chars)\<close>\<close>

definition lstrip_chars :: "string \<Rightarrow> string \<Rightarrow> string" where
  "lstrip_chars chars s = dropWhile (\<lambda>c. c \<in> set chars) s"

text \<open>\<open>s[a:b]\<close> for \<open>0 \<le> a\<close> and \<open>0 \<le> b\<close>\<close>

definition slice :: "string \<Rightarrow> nat \<Rightarrow> nat \<Rightarrow> string" where
  "slice s a b = take (b - a) (drop a s)"

text \<open>\<open>s.split()\<close>: the maximal runs of non-space characters.\<close>

fun split_ws_from :: "string \<Rightarrow> string \<Rightarrow> string list" where
  "split_ws_from cur [] = (if cur = [] then [] else [cur])"
| "split_ws_from cur (c # s) =
     (if is_space c then (if cur = [] then split_ws_from [] s else cur # split_ws_from [] s)
      else split_ws_from (cur @ [c]) s)"

definition split_ws :: "string \<Rightarrow> string list" where
  "split_ws s = split_ws_from [] s"

text \<open>\<open>sep.join(xs)\<close>\<close>

fun join :: "string \<Rightarrow> string list \<Rightarrow> string" where
  "join sep [] = []"
| "join sep [x] = x"
| "join sep (x # y # ys) = x @ sep @ join sep (y # ys)"

text \<open>
  \<open>s.split(sep)\<close> for a non-empty \<open>sep\<close>: cut at every occurrence of \<open>sep\<close>, scanning
  from the left; the result has one more piece than there are cuts.
\<close>

fun split_on_from :: "string \<Rightarrow> string \<Rightarrow> string \<Rightarrow> string list" where
  "split_on_from sep cur [] = [cur]"
| "split_on_from sep cur (c # s) =
     (if sep \<noteq> [] \<and> take (length sep) (c # s) = sep
      then cur # split_on_from sep [] (drop (length sep - 1) s)
      else split_on_from sep (cur @ [c]) s)"

definition split_on :: "string \<Rightarrow> string \<Rightarrow> string list" where
  "split_on sep s = split_on_from sep [] s"

section \<open>Regular expressions\<close>

text \<open>
  The patterns of the source use literals, character classes, sequence, alternation,
  greedy bounded and unbounded repetition, \<open>^\<close> and \<open>\b\<close>. \<open>Rep lo hi r\<close> is
  \<open>r{lo,hi}\<close>, with \<open>hi = None\<close> for no upper bound.
\<close>

datatype rx =
    Lit string
  | Cls "char \<Rightarrow> bool"
  | Seq rx rx
  | Alt rx rx
  | Rep nat "nat option" rx
  | Bol
  | WordB

abbreviation Star :: "rx \<Rightarrow> rx" where "Star r \<equiv> Rep 0 None r"
abbreviation Plus :: "rx \<Rightarrow> rx" where "Plus r \<equiv> Rep 1 None r"
abbreviation Opt :: "rx \<Rightarrow> rx" where "Opt r \<equiv> Rep 0 (Some 1) r"

fun seqs :: "rx list \<Rightarrow> rx" where
  "seqs [] = Lit []"
| "seqs [r] = r"
| "seqs (r # rs) = Seq r (seqs rs)"

fun alts :: "rx list \<Rightarrow> rx" where
  "alts [] = Cls (\<lambda>_. False)"
| "alts [r] = r"
| "alts (r # rs) = Alt r (alts rs)"

text \<open>\<open>\b\<close> at position \<open>i\<close>: exactly one of the characters around \<open>i\<close> is a word character.\<close>

definition word_at :: "string \<Rightarrow> nat \<Rightarrow> bool" where
  "word_at s i = (i < length s \<and> is_word (s ! i))"

definition boundary :: "string \<Rightarrow> nat \<Rightarrow> bool" where
  "boundary s i = ((0 < i \<and> word_at s (i - 1)) \<noteq> word_at s i)"

text \<open>
  A backtracking matcher tries the alternatives of a pattern in a fixed order and returns
  the first that lets the rest of the pattern match. \<open>rep_ends\<close> lists the end positions of
  a greedy repetition in that order: one more round of the body first, stopping last. Its
  first argument bounds the rounds; every repeated body in the source consumes a character.
\<close>

fun rep_ends :: "nat \<Rightarrow> (nat \<Rightarrow> nat list) \<Rightarrow> nat \<Rightarrow> nat option \<Rightarrow> nat \<Rightarrow> nat list" where
  "rep_ends 0 f lo hi i = (if lo = 0 then [i] else [])"
| "rep_ends (Suc k) f lo hi i =
     (if hi = Some 0 then []
      else concat (map (rep_ends k f (lo - 1) (map_option (\<lambda>h. h - 1) hi)) (f i)))
     @ (if lo = 0 then [i] else [])"

text \<open>
  \<open>ends r s i\<close>: the positions where a match of \<open>r\<close> in \<open>s\<close> starting at \<open>i\<close> can end, in the
  matcher's order of preference.
\<close>

primrec ends :: "rx \<Rightarrow> string \<Rightarrow> nat \<Rightarrow> nat list" where
  "ends (Lit w) s i = (if take (length w) (drop i s) = w then [i + length w] else [])"
| "ends (Cls p) s i = (if i < length s \<and> p (s ! i) then [i + 1] else [])"
| "ends (Seq a b) s i = concat (map (ends b s) (ends a s i))"
| "ends (Alt a b) s i = ends a s i @ ends b s i"
| "ends (Rep lo hi r) s i = rep_ends (length s - i) (ends r s) lo hi i"
| "ends Bol s i = (if i = 0 then [i] else [])"
| "ends WordB s i = (if boundary s i then [i] else [])"

text \<open>The end of the match the matcher reports at start position \<open>i\<close>, if any.\<close>

definition match_at :: "rx \<Rightarrow> string \<Rightarrow> nat \<Rightarrow> nat option" where
  "match_at r s i = (case ends r s i of [] \<Rightarrow> None | e # _ \<Rightarrow> Some e)"

text \<open>\<open>re.match(r, s)\<close>: the value of \<open>m.end()\<close>.\<close>

definition re_match :: "rx \<Rightarrow> string \<Rightarrow> nat option" where
  "re_match r s = match_at r s 0"

text \<open>
  \<open>re.finditer\<close> from position \<open>pos\<close>: the spans \<open>(m.start(), m.end())\<close> of the
  non-overlapping matches, leftmost first. After an empty match the scan moves on by one.
\<close>

function finditer_from :: "rx \<Rightarrow> string \<Rightarrow> nat \<Rightarrow> (nat \<times> nat) list" where
  "finditer_from r s pos =
     (if length s < pos then []
      else case match_at r s pos of
             None \<Rightarrow> finditer_from r s (Suc pos)
           | Some e \<Rightarrow> (pos, e) # finditer_from r s (max e (Suc pos)))"
  by pat_completeness auto
termination
  by (relation "measure (\<lambda>(r, s, pos). Suc (length s) - pos)") auto

declare finditer_from.simps [simp del]

definition finditer :: "rx \<Rightarrow> string \<Rightarrow> (nat \<times> nat) list" where
  "finditer r s = finditer_from r s 0"

text \<open>\<open>re.search(r, s)\<close>: the span of the leftmost match.\<close>

function search_from :: "rx \<Rightarrow> string \<Rightarrow> nat \<Rightarrow> (nat \<times> nat) option" where
  "search_from r s pos =
     (if length s < pos then None
      else case match_at r s pos of
             None \<Rightarrow> search_from r s (Suc pos)
           | Some e \<Rightarrow> Some (pos, e))"
  by pat_completeness auto
termination
  by (relation "measure (\<lambda>(r, s, pos). Suc (length s) - pos)") auto

declare search_from.simps [simp del]

definition re_search :: "rx \<Rightarrow> string \<Rightarrow> (nat \<times> nat) option" where
  "re_search r s = search_from r s 0"

text \<open>\<open>re.sub(r, repl, s)\<close> for a replacement without group references.\<close>

fun sub_spans :: "string \<Rightarrow> string \<Rightarrow> nat \<Rightarrow> (nat \<times> nat) list \<Rightarrow> string" where
  "sub_spans repl s pos [] = drop pos s"
| "sub_spans repl s pos ((st, en) # ms) = slice s pos st @ repl @ sub_spans repl s en ms"

definition re_sub :: "rx \<Rightarrow> string \<Rightarrow> string \<Rightarrow> string" where
  "re_sub r repl s = sub_spans repl s 0 (finditer r s)"

section \<open>The patterns of the scraper\<close>

text \<open>The characters beyond ASCII that the source mentions.\<close>

definition c_sup2 :: char where "c_sup2 = CHR 0xB2"   \<comment> \<open>superscript two\<close>
definition c_times :: char where "c_times = CHR 0xD7"  \<comment> \<open>multiplication sign\<close>
definition c_deg :: char where "c_deg = CHR 0xB0"      \<comment> \<open>degree sign\<close>
definition c_AA :: char where "c_AA = CHR 0xC5"        \<comment> \<open>A with ring\<close>
definition c_AE :: char where "c_AE = CHR 0xC4"        \<comment> \<open>A with diaeresis\<close>
definition c_OE :: char where "c_OE = CHR 0xD6"        \<comment> \<open>O with diaeresis\<close>
definition c_aa :: char where "c_aa = CHR 0xE5"        \<comment> \<open>a with ring\<close>
definition c_ae :: char where "c_ae = CHR 0xE4"        \<comment> \<open>a with diaeresis\<close>
definition c_oe :: char where "c_oe = CHR 0xF6"        \<comment> \<open>o with diaeresis\<close>

definition RESIDUAL_WORDS :: "string list" where
  "RESIDUAL_WORDS =
     [''trumma'', ''bobin'', ''box'', ''kartong'', ''kapad'',
      ''svart'', ''gr'' @ [c_oe] @ ''n'', ''gul'', ''vit'', ''r'' @ [c_oe] @ ''d'', ''antracit'',
      ''gr'' @ [c_aa],
      ''platt'', ''plan'', ''nej'', ''ja'', ''st'' @ [c_aa] @ ''l'', ''plast'', ''metall'',
      ''r'' @ [c_oe] @ ''relsesensor'']"

definition ws :: rx where "ws = Cls is_space"
definition digit :: rx where "digit = Cls is_digit"

text \<open>The filler sentence of lines 57 and 229.\<close>

definition filler_text :: string where
  "filler_text = ''L'' @ [c_ae] @ ''s mer om produkterna p'' @ [c_aa] @ '' ahlsell.se''"

text \<open>Line 57: the filler sentence and the white space after it.\<close>

definition filler_re :: rx where
  "filler_re = Seq (Lit filler_text) (Star ws)"

text \<open>Line 70: \<open>^(?:mm2|mm|cm|lm|kg|kN|kW|mAh?)\s+\<close>, with the superscript two in the first unit.\<close>

definition unit_re :: rx where
  "unit_re =
     seqs [Bol,
           alts [Lit (''mm'' @ [c_sup2]), Lit ''mm'', Lit ''cm'', Lit ''lm'', Lit ''kg'', Lit ''kN'',
                 Lit ''kW'', Seq (Lit ''mA'') (Opt (Lit ''h''))],
           Plus ws]"

text \<open>Lines 77-82: digits and separators, a unit, digits and separators again.\<close>

definition dim_lead :: "char \<Rightarrow> bool" where
  "dim_lead c = (is_digit c \<or> is_space c \<or> c \<in> set '',./xGX:+-'' \<or> c = c_times)"

definition dim_tail :: "char \<Rightarrow> bool" where
  "dim_tail c = (is_digit c \<or> is_space c \<or> c \<in> set '',./'' \<or> c = c_sup2)"

definition dim_re :: rx where
  "dim_re =
     seqs [Bol,
           Plus (Cls dim_lead),
           alts [Lit (''mm'' @ [c_sup2]), Lit ''mm'', Lit ''cm'', Seq (Lit ''m'') WordB, Lit ''kW'',
                 Lit ''kN'', Seq (Lit ''W'') WordB, Seq (Lit ''V'') WordB, Seq (Lit ''A'') WordB,
                 Lit (c_deg # ''C''), Lit ''lm'', Lit ''kg'', Lit ''mAh'', Lit ''mA'',
                 Seq (Lit ''K'') WordB],
           Star (Cls dim_tail)]"

text \<open>Line 89: \<open>^(?:IP\d{2}|DC|AC)\s+\<close>\<close>

definition ip_re :: rx where
  "ip_re = seqs [Bol, alts [Seq (Lit ''IP'') (Rep 2 (Some 2) digit), Lit ''DC'', Lit ''AC''], Plus ws]"

text \<open>Line 96: \<open>^E\d{1,2}\s+[\d,.]+\s*W\s+\d+\s*K\s+\<close>\<close>

definition lamp_re :: rx where
  "lamp_re =
     seqs [Bol, Lit ''E'', Rep 1 (Some 2) digit, Plus ws,
           Plus (Cls (\<lambda>c. is_digit c \<or> c \<in> set '',.'')), Star ws, Lit ''W'', Plus ws,
           Plus digit, Star ws, Lit ''K'', Plus ws]"

text \<open>Line 103: \<open>^(\d{1,4})\s+\<close>\<close>

definition num_re :: rx where
  "num_re = seqs [Bol, Rep 1 (Some 4) digit, Plus ws]"

text \<open>Line 116: \<open>^[A-Z]\s+\<close>\<close>

definition upper_re :: rx where
  "upper_re = seqs [Bol, Cls (in_range CHR ''A'' CHR ''Z''), Plus ws]"

text \<open>Lines 131-137: a model code, an optional parenthesis, groups of number and unit, white space.\<close>

definition is_alnum_ascii :: "char \<Rightarrow> bool" where
  "is_alnum_ascii c =
     (in_range CHR ''A'' CHR ''Z'' c \<or> in_range CHR ''a'' CHR ''z'' c \<or> in_range CHR ''0'' CHR ''9'' c)"

definition code_re :: rx where
  "code_re =
     seqs [Bol,
           Cls is_alnum_ascii,
           Rep 0 (Some 20) (Cls (\<lambda>c. is_alnum_ascii c \<or> c \<in> set ''/_.-'')),
           Opt (seqs [Star ws, Lit ''('', Star (Cls (\<lambda>c. c \<noteq> CHR '')'')), Lit '')'']),
           Star (seqs [Plus ws, Plus (Cls (\<lambda>c. is_digit c \<or> c \<in> set '',.'')), Star ws,
                       alts [Lit ''V'', Lit ''A'', Lit ''W'', Seq (Lit ''mm'') (Opt (Lit [c_sup2])),
                             Lit ''m''],
                       WordB]),
           Plus ws]"

text \<open>Lines 140 and 239: an upper-case letter, then lower-case letters, Swedish ones included.\<close>

definition upper_sv :: "char \<Rightarrow> bool" where
  "upper_sv c = (in_range CHR ''A'' CHR ''Z'' c \<or> c = c_AA \<or> c = c_AE \<or> c = c_OE)"

definition lower_sv :: "char \<Rightarrow> bool" where
  "lower_sv c = (in_range CHR ''a'' CHR ''z'' c \<or> c = c_aa \<or> c = c_ae \<or> c = c_oe)"

definition first_word_re :: rx where
  "first_word_re = Seq (Cls upper_sv) (Rep 3 None (Cls lower_sv))"

text \<open>Line 179: \<open>\b(\d{7})E?\b\<close>\<close>

definition art_re :: rx where
  "art_re = seqs [WordB, Rep 7 (Some 7) digit, Opt (Lit ''E''), WordB]"

text \<open>Lines 210 and 225: \<open>\s+\<close>\<close>

definition ws_re :: rx where
  "ws_re = Plus ws"

text \<open>Line 229: digits, white space, the filler sentence and the rest of the line.\<close>

definition spec_filler_re :: rx where
  "spec_filler_re =
     seqs [Star digit, Star ws, Lit filler_text, Star (Cls (\<lambda>c. c \<noteq> CHR 0x0A))]"

text \<open>Line 239: \<open>\b([A-Z...][a-z...]{4,})\b\<close>\<close>

definition trim_re :: rx where
  "trim_re = seqs [WordB, Cls upper_sv, Rep 4 None (Cls lower_sv), WordB]"

section \<open>The name cleaner\<close>

text \<open>
  One round of the loop of \<open>clean_product_name\<close> (lines 69-143) on a stripped, non-empty
  text: the new text when a rule fires (\<open>changed = True\<close>), \<open>None\<close> when none does.
\<close>

definition strip_residual_word :: "string \<Rightarrow> string option" where
  "strip_residual_word text =
     (case find (\<lambda>word. prefix (word @ '' '') (lower text) \<or> prefix (word @ ''/'') (lower text))
             RESIDUAL_WORDS of
        Some word \<Rightarrow> Some (lstrip_chars '' /'' (drop (length word) text))
      | None \<Rightarrow> None)"

definition strip_model_code :: "string \<Rightarrow> string option" where
  "strip_model_code text =
     (case re_match code_re text of
        None \<Rightarrow> None
      | Some e \<Rightarrow>
          (let rest = strip (drop e text) in
           case re_match first_word_re rest of
             None \<Rightarrow> None
           | Some k \<Rightarrow> if lower (take k rest) \<notin> set RESIDUAL_WORDS then Some rest else None))"

definition strip_step :: "string \<Rightarrow> string option" where
  "strip_step text =
     (case re_match unit_re text of Some e \<Rightarrow> Some (drop e text) | None \<Rightarrow>
      case re_match dim_re text of Some e \<Rightarrow> Some (drop e text) | None \<Rightarrow>
      case re_match ip_re text of Some e \<Rightarrow> Some (drop e text) | None \<Rightarrow>
      case re_match lamp_re text of Some e \<Rightarrow> Some (drop e text) | None \<Rightarrow>
      case re_match num_re text of Some e \<Rightarrow> Some (drop e text) | None \<Rightarrow>
      if text \<noteq> [] \<and> hd text \<in> set ''.!,;:'' then Some (lstrip (tl text)) else
      case re_match upper_re text of Some e \<Rightarrow> Some (drop e text) | None \<Rightarrow>
      case strip_residual_word text of Some t \<Rightarrow> Some t | None \<Rightarrow>
      strip_model_code text)"

text \<open>
  The \<open>while changed and iterations < 50\<close> loop; the first argument is the number of
  rounds left.
\<close>

fun strip_loop :: "nat \<Rightarrow> string \<Rightarrow> string" where
  "strip_loop 0 text = text"
| "strip_loop (Suc n) text =
     (let text = strip text in
      if text = [] then text
      else case strip_step text of
             Some text' \<Rightarrow> strip_loop n text'
           | None \<Rightarrow> text)"

text \<open>\<open>text.find(c)\<close>: the index of the first \<open>c\<close>, or -1.\<close>

definition find_chr :: "char \<Rightarrow> string \<Rightarrow> int" where
  "find_chr c s = (if c \<in> set s then int (length (takeWhile (\<lambda>x. x \<noteq> c) s)) else - 1)"

text \<open>Lines 146-148.\<close>

definition cut_at_period :: "string \<Rightarrow> string" where
  "cut_at_period text =
     (let period_idx = find_chr CHR ''.'' text in
      if period_idx > 5 then strip (take (nat period_idx) text) else text)"

text \<open>Lines 153-159: the words taken while the running length stays within 150.\<close>

fun take_words :: "nat \<Rightarrow> string list \<Rightarrow> string list" where
  "take_words len [] = []"
| "take_words len (word # words) =
     (if len + length word + 1 > 150 then []
      else word # take_words (len + length word + 1) words)"

text \<open>Lines 151-160.\<close>

definition truncate_long :: "string \<Rightarrow> string" where
  "truncate_long text =
     (if length text > 150 then join '' '' (take_words 0 (split_ws text)) else text)"

definition clean_product_name :: "string \<Rightarrow> string" where
  "clean_product_name raw_text =
     (let text = strip raw_text in
      if text = [] then []
      else strip (truncate_long (cut_at_period (strip_loop 50 (re_sub filler_re [] text)))))"

section \<open>The section parser\<close>

text \<open>Lines 186-191: the text after the last article number of the name section.\<close>

definition raw_name :: "string \<Rightarrow> string" where
  "raw_name name_section =
     (let last_num_end = (case finditer art_re name_section of [] \<Rightarrow> 0 | ms \<Rightarrow> snd (last ms))
      in drop last_num_end name_section)"

text \<open>Lines 236-245: the cut before the first long capitalised word.\<close>

definition trim_last_spec :: "string \<Rightarrow> string" where
  "trim_last_spec spec_text =
     (if length spec_text > 30 then
        (case re_search trim_re spec_text of
           None \<Rightarrow> spec_text
         | Some (st, en) \<Rightarrow>
             (let candidate = strip (take st spec_text) in
              if length candidate \<ge> 2 then candidate else spec_text))
      else spec_text)"

text \<open>
  Lines 216-230: the text between the \<open>j\<close>-th match and the next one (or the end of the
  section), with white space collapsed and the filler sentence removed.
\<close>

definition clean_spec :: "string \<Rightarrow> (nat \<times> nat) list \<Rightarrow> nat \<Rightarrow> string" where
  "clean_spec data_section art_matches j =
     (let spec_start = snd (art_matches ! j);
          spec_end = (if j + 1 < length art_matches then fst (art_matches ! (j + 1))
                      else length data_section);
          spec_text = strip (slice data_section spec_start spec_end);
          spec_text = strip (re_sub ws_re '' '' spec_text)
      in strip (re_sub spec_filler_re [] spec_text))"

text \<open>
  Lines 215-252 for the \<open>j\<close>-th match. Group 1 of \<open>art_re\<close> is the seven characters at the
  start of the match, the leading \<open>\b\<close> being empty.
\<close>

definition spec_row :: "string \<Rightarrow> string \<Rightarrow> string \<Rightarrow> (nat \<times> nat) list \<Rightarrow> nat \<Rightarrow> product_row" where
  "spec_row product_name col_headers data_section art_matches j =
     (let art_num = slice data_section (fst (art_matches ! j)) (fst (art_matches ! j) + 7);
          spec_text = clean_spec data_section art_matches j;
          spec_text = (if j + 1 \<ge> length art_matches then trim_last_spec spec_text else spec_text)
      in \<lparr> artikelnummer = art_num, benamning = product_name,
           kolumnrubriker = col_headers, specifikationer = spec_text \<rparr>)"

text \<open>
  Lines 200-252: the rows of one data section under the product name \<open>product_name\<close>;
  none when the section holds no article number (the \<open>continue\<close> of line 205).
\<close>

definition data_rows :: "string \<Rightarrow> string \<Rightarrow> product_row list" where
  "data_rows product_name data_section =
     (let art_matches = finditer art_re data_section
      in if art_matches = [] then []
         else
           (let col_headers = strip (slice data_section 0 (fst (art_matches ! 0)));
                col_headers = strip (re_sub ws_re '' '' col_headers)
            in map (spec_row product_name col_headers data_section art_matches)
                   [0..<length art_matches]))"

text \<open>
  The body of the loop over \<open>i\<close> (lines 185-252) for the pair of \<open>name_section\<close> and
  \<open>data_section\<close>: the value of \<open>last_good_name\<close> after the round and the rows appended.
\<close>

definition process_pair :: "string \<Rightarrow> string \<Rightarrow> string \<Rightarrow> string \<times> product_row list" where
  "process_pair last_good_name name_section data_section =
     (let cleaned = clean_product_name (raw_name name_section);
          product_name = (if length cleaned < 3 then last_good_name else cleaned);
          last_good_name = (if length cleaned < 3 then last_good_name else cleaned)
      in (last_good_name, data_rows product_name data_section))"

text \<open>The loop \<open>for i in range(len(sections) - 1)\<close>, threading \<open>last_good_name\<close>.\<close>

fun parse_sections :: "string \<Rightarrow> string list \<Rightarrow> product_row list" where
  "parse_sections last_good_name (name_section # data_section # sections) =
     (let (last_good_name', rows) = process_pair last_good_name name_section data_section
      in rows @ parse_sections last_good_name' (data_section # sections))"
| "parse_sections last_good_name sections = []"

definition marker :: string where
  "marker = ''Artikel Nr''"

text \<open>Lines 172-176.\<close>

definition sections_of :: "string list \<Rightarrow> string list" where
  "sections_of pages =
     (let content_pages = (if length pages > 2 then butlast (tl pages) else pages);
          full_text = join '' '' content_pages
      in split_on marker full_text)"

definition parse_catalog :: "string list \<Rightarrow> product_row list" where
  "parse_catalog pages = parse_sections [] (sections_of pages)"

section \<open>Notions of the specification\<close>

text \<open>The cleaned name of a section, and whether it is long enough to be accepted.\<close>

definition cleaned_name :: "string \<Rightarrow> string" where
  "cleaned_name name_section = clean_product_name (raw_name name_section)"

definition accepted :: "string \<Rightarrow> bool" where
  "accepted name_section = (3 \<le> length (cleaned_name name_section))"

text \<open>The most recently accepted name among the sections \<open>secs\<close>, if any.\<close>

definition last_accepted :: "string list \<Rightarrow> string option" where
  "last_accepted secs =
     (case filter accepted secs of [] \<Rightarrow> None | xs \<Rightarrow> Some (cleaned_name (last xs)))"

text \<open>
  The name the specification gives the rows of pair \<open>i\<close>: the section's own cleaned name
  when accepted, else the most recently accepted one of an earlier section, else empty.
\<close>

definition name_for :: "string list \<Rightarrow> nat \<Rightarrow> string" where
  "name_for secs i =
     (if accepted (secs ! i) then cleaned_name (secs ! i)
      else case last_accepted (take i secs) of Some n \<Rightarrow> n | None \<Rightarrow> [])"

text \<open>
  A capitalised word starts at position \<open>i\<close> of \<open>s\<close>: an upper-case letter, not preceded by
  a word character, then a run of at least four lower-case letters that no word character
  follows.
\<close>

definition cap_word_at :: "string \<Rightarrow> nat \<Rightarrow> bool" where
  "cap_word_at s i =
     (i < length s \<and> upper_sv (s ! i) \<and> \<not> (0 < i \<and> word_at s (i - 1)) \<and>
      (let n = length (takeWhile lower_sv (drop (Suc i) s))
       in 4 \<le> n \<and> \<not> word_at s (Suc i + n)))"

text \<open>A seven-digit article number.\<close>

definition is_article_number :: "string \<Rightarrow> bool" where
  "is_article_number a = (length a = 7 \<and> list_all is_digit a)"

section \<open>De-duplication keeps first occurrences\<close>

lemma nth_filter_upt_Cons:
  "map ((!) (r # rs)) (filter P [0..<Suc (length rs)]) =
     (if P 0 then [r] else []) @ map ((!) rs) (filter (\<lambda>i. P (Suc i)) [0..<length rs])"
proof -
  have "[0..<Suc (length rs)] = 0 # map Suc [0..<length rs]"
    by (simp add: upt_conv_Cons map_Suc_upt del: upt_Suc)
  then show ?thesis
    by (simp add: filter_map comp_def del: upt_Suc)
qed

lemma dedup_loop_indices:
  "dedup_loop seen unique rs =
     unique @ map ((!) rs)
       (filter (\<lambda>i. artikelnummer (rs ! i) \<notin> seen \<and> first_occurrence rs i) [0..<length rs])"
proof (induction rs arbitrary: seen unique)
  case Nil
  then show ?case by simp
next
  case (Cons r rs)
  have shift: "first_occurrence (r # rs) (Suc i) =
      (artikelnummer (rs ! i) \<noteq> artikelnummer r \<and> first_occurrence rs i)" for i
    by (auto simp: first_occurrence_def less_Suc_eq_0_disj)
  have zero: "first_occurrence (r # rs) 0"
    by (simp add: first_occurrence_def)
  show ?case
  proof (cases "artikelnummer r \<in> seen")
    case True
    have "(artikelnummer (rs ! i) \<notin> seen \<and> first_occurrence (r # rs) (Suc i)) =
          (artikelnummer (rs ! i) \<notin> seen \<and> first_occurrence rs i)" for i
      using True by (auto simp: shift)
    with True show ?thesis
      by (simp add: Cons.IH nth_filter_upt_Cons del: upt_Suc)
  next
    case False
    have "(artikelnummer (rs ! i) \<notin> seen \<and> first_occurrence (r # rs) (Suc i)) =
          (artikelnummer (rs ! i) \<notin> insert (artikelnummer r) seen \<and> first_occurrence rs i)" for i
      by (auto simp: shift)
    with False show ?thesis
      by (simp add: Cons.IH nth_filter_upt_Cons zero del: upt_Suc)
  qed
qed

lemma first_occurrence_exists:
  "a \<in> artikelnummer ` set rs \<Longrightarrow>
     \<exists>i<length rs. artikelnummer (rs ! i) = a \<and> first_occurrence rs i"
proof -
  assume "a \<in> artikelnummer ` set rs"
  then have ex: "\<exists>i. i < length rs \<and> artikelnummer (rs ! i) = a"
    by (auto simp: in_set_conv_nth)
  define m where "m = (LEAST i. i < length rs \<and> artikelnummer (rs ! i) = a)"
  have m: "m < length rs \<and> artikelnummer (rs ! m) = a"
    unfolding m_def using ex by (rule LeastI_ex)
  have "j < m \<Longrightarrow> artikelnummer (rs ! j) \<noteq> a" for j
    using not_less_Least[of j "\<lambda>i. i < length rs \<and> artikelnummer (rs ! i) = a"] m
    unfolding m_def by auto
  with m show ?thesis
    by (auto simp: first_occurrence_def)
qed

text \<open>
  C3. De-duplication returns exactly the rows standing at the first occurrence of their
  article number, in the order of these positions: so every article number of the input
  is kept once, with the fields of its first row.
\<close>

theorem deduplicate_first_occurrences:
  "deduplicate rs = map ((!) rs) (filter (first_occurrence rs) [0..<length rs])
   \<and> distinct (map artikelnummer (deduplicate rs))
   \<and> set (map artikelnummer (deduplicate rs)) = set (map artikelnummer rs)"
proof -
  let ?idx = "filter (first_occurrence rs) [0..<length rs]"
  have eq: "deduplicate rs = map ((!) rs) ?idx"
    by (simp add: deduplicate_def dedup_loop_indices)
  have inj: "inj_on (\<lambda>i. artikelnummer (rs ! i)) (set ?idx)"
  proof (rule inj_onI)
    fix i j assume i: "i \<in> set ?idx" and j: "j \<in> set ?idx"
      and e: "artikelnummer (rs ! i) = artikelnummer (rs ! j)"
    show "i = j"
    proof (rule ccontr)
      assume "i \<noteq> j"
      then consider "i < j" | "j < i" by linarith
      then show False
        using i j e by cases (auto simp: first_occurrence_def)
    qed
  qed
  have dist: "distinct (map artikelnummer (deduplicate rs))"
    unfolding eq using inj by (simp add: distinct_map comp_def del: upt_Suc)
  have "set (map artikelnummer (deduplicate rs)) = set (map artikelnummer rs)"
  proof
    show "set (map artikelnummer (deduplicate rs)) \<subseteq> set (map artikelnummer rs)"
      unfolding eq by auto
    show "set (map artikelnummer rs) \<subseteq> set (map artikelnummer (deduplicate rs))"
    proof
      fix a assume "a \<in> set (map artikelnummer rs)"
      then have "a \<in> artikelnummer ` set rs" by simp
      from first_occurrence_exists[OF this] obtain i where
        "i < length rs" "artikelnummer (rs ! i) = a" "first_occurrence rs i" by blast
      then have "i \<in> set ?idx" by simp
      then have "artikelnummer (rs ! i) \<in> set (map artikelnummer (deduplicate rs))"
        unfolding eq by (simp del: upt_Suc)
      then show "a \<in> set (map artikelnummer (deduplicate rs))"
        using \<open>artikelnummer (rs ! i) = a\<close> by simp
    qed
  qed
  with eq dist show ?thesis by blast
qed

theorem deduplicate_first_occurrences_witness:
  "deduplicate
     [\<lparr>artikelnummer = ''1234567'', benamning = ''a'', kolumnrubriker = ''h'', specifikationer = ''1''\<rparr>,
      \<lparr>artikelnummer = ''7654321'', benamning = ''b'', kolumnrubriker = ''h'', specifikationer = ''2''\<rparr>,
      \<lparr>artikelnummer = ''1234567'', benamning = ''c'', kolumnrubriker = ''k'', specifikationer = ''3''\<rparr>]
   = [\<lparr>artikelnummer = ''1234567'', benamning = ''a'', kolumnrubriker = ''h'', specifikationer = ''1''\<rparr>,
      \<lparr>artikelnummer = ''7654321'', benamning = ''b'', kolumnrubriker = ''h'', specifikationer = ''2''\<rparr>]
   \<and> filter (first_occurrence
       [\<lparr>artikelnummer = ''1234567'', benamning = ''a'', kolumnrubriker = ''h'', specifikationer = ''1''\<rparr>,
        \<lparr>artikelnummer = ''7654321'', benamning = ''b'', kolumnrubriker = ''h'', specifikationer = ''2''\<rparr>,
        \<lparr>artikelnummer = ''1234567'', benamning = ''c'', kolumnrubriker = ''k'', specifikationer = ''3''\<rparr>])
       [0..<3] = [0, 1]"
  using deduplicate_first_occurrences
    [of "[\<lparr>artikelnummer = ''1234567'', benamning = ''a'', kolumnrubriker = ''h'', specifikationer = ''1''\<rparr>,
          \<lparr>artikelnummer = ''7654321'', benamning = ''b'', kolumnrubriker = ''h'', specifikationer = ''2''\<rparr>,
          \<lparr>artikelnummer = ''1234567'', benamning = ''c'', kolumnrubriker = ''k'', specifikationer = ''3''\<rparr>]"]
  by (simp add: first_occurrence_def upt_rec[of 0] upt_rec[of 1] upt_rec[of 2] less_Suc_eq
           numeral_3_eq_3 all_conj_distrib)

section \<open>Facts about the matcher\<close>

lemma rep_ends_sound:
  assumes single: "\<And>a e. e \<in> set (f a) \<Longrightarrow> e = Suc a \<and> a < length s \<and> p (s ! a)"
  shows "e \<in> set (rep_ends k f lo hi i) \<Longrightarrow>
     i + lo \<le> e \<and> (\<forall>j. i \<le> j \<and> j < e \<longrightarrow> j < length s \<and> p (s ! j)) \<and>
     (\<forall>h. hi = Some h \<longrightarrow> e \<le> i + h)"
proof (induction k arbitrary: lo hi i)
  case 0
  then show ?case by (auto split: if_splits)
next
  case (Suc k)
  from Suc.prems consider
      (stop) "lo = 0" "e = i"
    | (more) a where "hi \<noteq> Some 0" "a \<in> set (f i)"
             "e \<in> set (rep_ends k f (lo - 1) (map_option (\<lambda>h. h - 1) hi) a)"
    by (auto split: if_splits)
  then show ?case
  proof cases
    case stop
    then show ?thesis by auto
  next
    case more
    from single[OF more(2)] have ai: "a = Suc i" "i < length s" "p (s ! i)" by auto
    from Suc.IH[OF more(3)] ai have
      a: "Suc i + (lo - 1) \<le> e" and
      b: "\<forall>j. Suc i \<le> j \<and> j < e \<longrightarrow> j < length s \<and> p (s ! j)" and
      c: "\<forall>h. map_option (\<lambda>h. h - 1) hi = Some h \<longrightarrow> e \<le> Suc i + h"
      by auto
    have "i + lo \<le> e" using a by arith
    moreover have "\<forall>j. i \<le> j \<and> j < e \<longrightarrow> j < length s \<and> p (s ! j)"
    proof (intro allI impI)
      fix j assume j: "i \<le> j \<and> j < e"
      show "j < length s \<and> p (s ! j)"
      proof (cases "j = i")
        case True
        then show ?thesis using ai by simp
      next
        case False
        then have "Suc i \<le> j \<and> j < e" using j by arith
        then show ?thesis using b by blast
      qed
    qed
    moreover have "\<forall>h. hi = Some h \<longrightarrow> e \<le> i + h"
    proof (intro allI impI)
      fix h assume h: "hi = Some h"
      then have "h \<noteq> 0" using more(1) by auto
      moreover have "e \<le> Suc i + (h - 1)" using c h by simp
      ultimately show "e \<le> i + h" by arith
    qed
    ultimately show ?thesis by blast
  qed
qed

lemma ends_Cls_single:
  "e \<in> set (ends (Cls p) s a) \<Longrightarrow> e = Suc a \<and> a < length s \<and> p (s ! a)"
  by (auto split: if_splits)

lemma rep_ends_cls_sound:
  assumes "e \<in> set (rep_ends k (ends (Cls p) s) lo hi i)"
  shows "i + lo \<le> e \<and> (\<forall>j. i \<le> j \<and> j < e \<longrightarrow> j < length s \<and> p (s ! j)) \<and>
     (\<forall>h. hi = Some h \<longrightarrow> e \<le> i + h)"
proof (rule rep_ends_sound[of "ends (Cls p) s" s p])
  show "\<And>a e. e \<in> set (ends (Cls p) s a) \<Longrightarrow> e = Suc a \<and> a < length s \<and> p (s ! a)"
    by (rule ends_Cls_single)
  show "e \<in> set (rep_ends k (ends (Cls p) s) lo hi i)" by (rule assms)
qed

lemma finditer_from_sound:
  "(st, en) \<in> set (finditer_from r s pos) \<Longrightarrow>
     match_at r s st = Some en \<and> pos \<le> st \<and> st \<le> length s"
proof (induction r s pos rule: finditer_from.induct)
  case (1 r s pos)
  show ?case
  proof (cases "length s < pos")
    case True
    with "1.prems" show ?thesis by (simp add: finditer_from.simps[of r s pos])
  next
    case False
    show ?thesis
    proof (cases "match_at r s pos")
      case None
      with False "1.prems" have "(st, en) \<in> set (finditer_from r s (Suc pos))"
        by (simp add: finditer_from.simps[of r s pos])
      from "1.IH"(1)[OF False None this] show ?thesis by simp
    next
      case (Some e)
      with False "1.prems" have
        "(st, en) = (pos, e) \<or> (st, en) \<in> set (finditer_from r s (max e (Suc pos)))"
        by (simp add: finditer_from.simps[of r s pos])
      then show ?thesis
      proof
        assume "(st, en) = (pos, e)"
        then show ?thesis using Some False by simp
      next
        assume "(st, en) \<in> set (finditer_from r s (max e (Suc pos)))"
        from "1.IH"(2)[OF False Some this] show ?thesis by simp
      qed
    qed
  qed
qed

lemma art_re_match_digits:
  assumes "match_at art_re s st = Some en"
  shows "st + 7 \<le> length s \<and> (\<forall>j. st \<le> j \<and> j < st + 7 \<longrightarrow> is_digit (s ! j))"
proof -
  from assms have "ends art_re s st \<noteq> []"
    by (auto simp: match_at_def split: list.splits)
  then obtain e where e: "e \<in> set (rep_ends (length s - st) (ends (Cls is_digit) s) 7 (Some 7) st)"
    by (auto simp: art_re_def digit_def simp del: ends.simps(2) split: if_splits)
  from rep_ends_cls_sound[OF e] have
    a: "st + 7 \<le> e" and b: "\<forall>j. st \<le> j \<and> j < e \<longrightarrow> j < length s \<and> is_digit (s ! j)"
    by auto
  from a have "st \<le> st + 6 \<and> st + 6 < e" by arith
  with b have "st + 6 < length s" by blast
  then have "st + 7 \<le> length s" by arith
  moreover have "\<forall>j. st \<le> j \<and> j < st + 7 \<longrightarrow> is_digit (s ! j)"
    using a b by (meson less_le_trans)
  ultimately show ?thesis by blast
qed

lemma rep_ends_opt:
  "e \<in> set (rep_ends k f 0 (Some 1) i) \<Longrightarrow> e = i \<or> e \<in> set (f i)"
  by (cases k; cases "k - 1") (auto split: if_splits)

lemma is_digit_word: "is_digit c \<Longrightarrow> is_word c"
  by (simp add: is_word_def)

lemma art_re_match_shape:
  assumes "e \<in> set (ends art_re s st)"
  shows "(e = st + 8 \<and> st + 7 < length s \<and> s ! (st + 7) = CHR ''E'') \<or> (e = st + 7 \<and> \<not> word_at s (st + 7))"
proof -
  from assms obtain e7 e8 where
    e7: "e7 \<in> set (rep_ends (length s - st) (ends (Cls is_digit) s) 7 (Some 7) st)" and
    e8: "e8 \<in> set (rep_ends (length s - e7) (ends (Lit ''E'') s) 0 (Some 1) e7)" and
    b: "boundary s e8" and e: "e = e8"
    by (auto simp: art_re_def digit_def simp del: ends.simps(1,2) split: if_splits)
  from rep_ends_cls_sound[OF e7] have
    a: "st + 7 \<le> e7" "e7 \<le> st + 7" and d: "\<forall>j. st \<le> j \<and> j < e7 \<longrightarrow> j < length s \<and> is_digit (s ! j)"
    by auto
  then have e7eq: "e7 = st + 7" by arith
  have "st \<le> st + 6 \<and> st + 6 < e7" using e7eq by arith
  with d have d6: "st + 6 < length s \<and> is_digit (s ! (st + 6))" by blast
  from rep_ends_opt[OF e8] show ?thesis
  proof
    assume "e8 = e7"
    moreover have "st + 7 - 1 = st + 6" by arith
    then have "word_at s (st + 7 - 1)"
      using d6 by (simp only: word_at_def is_digit_word simp_thms)
    ultimately show ?thesis using b e e7eq by (simp add: boundary_def)
  next
    assume "e8 \<in> set (ends (Lit ''E'') s e7)"
    then have "e8 = e7 + 1" and t: "take 1 (drop e7 s) = ''E''"
      by (auto split: if_splits)
    from t have "e7 < length s" by (cases "e7 < length s") auto
    moreover from this t have "s ! e7 = CHR ''E''"
      by (metis One_nat_def hd_drop_conv_nth list.sel(1) take_Suc_conv_app_nth take0 append_Nil hd_take zero_less_one)
    ultimately show ?thesis using \<open>e8 = e7 + 1\<close> e e7eq by simp
  qed
qed

lemma lower_sv_word: "lower_sv c \<Longrightarrow> is_word c"
  by (auto simp: lower_sv_def is_word_def c_aa_def c_ae_def c_oe_def cp_def)

lemma upper_sv_word: "upper_sv c \<Longrightarrow> is_word c"
  by (auto simp: upper_sv_def is_word_def c_AA_def c_AE_def c_OE_def cp_def)

lemma rep_ends_complete:
  assumes single: "\<And>a. a < length s \<Longrightarrow> p (s ! a) \<Longrightarrow> f a = [Suc a]"
  shows "(\<forall>j. i \<le> j \<and> j < e \<longrightarrow> j < length s \<and> p (s ! j)) \<Longrightarrow> i + lo \<le> e \<Longrightarrow> e - i \<le> k \<Longrightarrow>
     e \<in> set (rep_ends k f lo None i)"
proof (induction k arbitrary: lo i)
  case 0
  then show ?case by simp
next
  case (Suc k)
  show ?case
  proof (cases "e = i")
    case True
    then show ?thesis using Suc.prems by simp
  next
    case False
    then have lt: "i < e" using Suc.prems by arith
    then have pi: "i < length s \<and> p (s ! i)" using Suc.prems(1) by auto
    then have fi: "f i = [Suc i]" using single by blast
    have "e \<in> set (rep_ends k f (lo - 1) None (Suc i))"
    proof (rule Suc.IH)
      show "\<forall>j. Suc i \<le> j \<and> j < e \<longrightarrow> j < length s \<and> p (s ! j)"
        using Suc.prems(1) by auto
      show "Suc i + (lo - 1) \<le> e" using Suc.prems(2) lt by arith
      show "e - Suc i \<le> k" using Suc.prems(3) by arith
    qed
    then show ?thesis using fi by simp
  qed
qed

lemma rep_ends_cls_complete:
  assumes "\<forall>j. i \<le> j \<and> j < e \<longrightarrow> j < length s \<and> p (s ! j)" "i + lo \<le> e" "e - i \<le> k"
  shows "e \<in> set (rep_ends k (ends (Cls p) s) lo None i)"
proof (rule rep_ends_complete[of s p])
  show "\<And>a. a < length s \<Longrightarrow> p (s ! a) \<Longrightarrow> ends (Cls p) s a = [Suc a]" by simp
qed (use assms in auto)

lemma run_length:
  "(\<forall>j. a \<le> j \<and> j < e \<longrightarrow> j < length s \<and> p (s ! j)) \<longleftrightarrow> e \<le> a + length (takeWhile p (drop a s))"
proof
  assume all: "\<forall>j. a \<le> j \<and> j < e \<longrightarrow> j < length s \<and> p (s ! j)"
  show "e \<le> a + length (takeWhile p (drop a s))"
  proof (cases "e \<le> a")
    case True
    then show ?thesis by simp
  next
    case False
    have "e - a \<le> length (takeWhile p (drop a s))"
    proof (rule length_takeWhile_less_P_nth)
      fix i assume "i < e - a"
      then have "a \<le> a + i \<and> a + i < e" by arith
      with all have "a + i < length s \<and> p (s ! (a + i))" by blast
      then show "p (drop a s ! i)" by simp
    next
      have "a \<le> e - 1 \<and> e - 1 < e" using False by arith
      with all have "e - 1 < length s" by blast
      then show "e - a \<le> length (drop a s)" by simp
    qed
    then show ?thesis by arith
  qed
next
  assume le: "e \<le> a + length (takeWhile p (drop a s))"
  show "\<forall>j. a \<le> j \<and> j < e \<longrightarrow> j < length s \<and> p (s ! j)"
  proof (intro allI impI)
    fix j assume j: "a \<le> j \<and> j < e"
    then have k: "j - a < length (takeWhile p (drop a s))" using le by arith
    have "length (takeWhile p (drop a s)) \<le> length (drop a s)"
      by (rule length_takeWhile_le)
    with k have jl: "j < length s" by simp
    have "takeWhile p (drop a s) ! (j - a) \<in> set (takeWhile p (drop a s))"
      using k by (rule nth_mem)
    then have "p (takeWhile p (drop a s) ! (j - a))" by (rule set_takeWhileD[THEN conjunct2])
    then have "p (drop a s ! (j - a))" using k by (simp add: takeWhile_nth)
    then have "p (s ! j)" using j jl by simp
    with jl show "j < length s \<and> p (s ! j)" by simp
  qed
qed

lemma rep_ends_cls_iff:
  "e \<in> set (rep_ends (length s - a) (ends (Cls p) s) lo None a) \<longleftrightarrow>
     a + lo \<le> e \<and> e \<le> a + length (takeWhile p (drop a s))"
proof
  assume "e \<in> set (rep_ends (length s - a) (ends (Cls p) s) lo None a)"
  from rep_ends_cls_sound[OF this] show "a + lo \<le> e \<and> e \<le> a + length (takeWhile p (drop a s))"
    by (simp add: run_length)
next
  assume r: "a + lo \<le> e \<and> e \<le> a + length (takeWhile p (drop a s))"
  then have all: "\<forall>j. a \<le> j \<and> j < e \<longrightarrow> j < length s \<and> p (s ! j)"
    by (simp add: run_length)
  have "length (takeWhile p (drop a s)) \<le> length (drop a s)" by (rule length_takeWhile_le)
  with r have "e - a \<le> length s - a" by simp arith
  with all r show "e \<in> set (rep_ends (length s - a) (ends (Cls p) s) lo None a)"
    by (intro rep_ends_cls_complete) auto
qed

lemma ends_trim_re:
  "e \<in> set (ends trim_re s i) \<longleftrightarrow>
     boundary s i \<and> i < length s \<and> upper_sv (s ! i) \<and>
     e \<in> set (rep_ends (length s - Suc i) (ends (Cls lower_sv) s) 4 None (Suc i)) \<and> boundary s e"
  by (auto simp: trim_re_def simp del: ends.simps(2) split: if_splits)
     (auto split: if_splits)

lemma trim_re_cap_word:
  "ends trim_re s i \<noteq> [] \<longleftrightarrow> cap_word_at s i"
proof
  assume "ends trim_re s i \<noteq> []"
  then obtain e where "e \<in> set (ends trim_re s i)" by (cases "ends trim_re s i") auto
  then have bi: "boundary s i" and il: "i < length s" and up: "upper_sv (s ! i)"
    and lo: "Suc i + 4 \<le> e" and hi: "e \<le> Suc i + length (takeWhile lower_sv (drop (Suc i) s))"
    and be: "boundary s e"
    by (auto simp: ends_trim_re rep_ends_cls_iff)
  let ?n = "length (takeWhile lower_sv (drop (Suc i) s))"
  have run: "\<forall>j. Suc i \<le> j \<and> j < Suc i + ?n \<longrightarrow> j < length s \<and> lower_sv (s ! j)"
    using run_length[of "Suc i" "Suc i + ?n" s lower_sv] by simp
  have "word_at s i" using il up by (simp add: word_at_def upper_sv_word)
  with bi have pre: "\<not> (0 < i \<and> word_at s (i - 1))" by (simp add: boundary_def)
  have "Suc i \<le> e - 1 \<and> e - 1 < Suc i + ?n" using lo hi by arith
  with run have "e - 1 < length s \<and> lower_sv (s ! (e - 1))" by blast
  then have "word_at s (e - 1)" by (simp add: word_at_def lower_sv_word)
  moreover have "0 < e" using lo by arith
  ultimately have nw: "\<not> word_at s e" using be by (simp add: boundary_def)
  have "e = Suc i + ?n"
  proof (rule ccontr)
    assume "e \<noteq> Suc i + ?n"
    then have "Suc i \<le> e \<and> e < Suc i + ?n" using lo hi by arith
    with run have "e < length s \<and> lower_sv (s ! e)" by blast
    then have "word_at s e" by (simp add: word_at_def lower_sv_word)
    with nw show False by simp
  qed
  with lo nw have "4 \<le> ?n \<and> \<not> word_at s (Suc i + ?n)" by simp
  with il up pre show "cap_word_at s i" by (simp add: cap_word_at_def Let_def)
next
  assume c: "cap_word_at s i"
  let ?n = "length (takeWhile lower_sv (drop (Suc i) s))"
  from c have il: "i < length s" and up: "upper_sv (s ! i)"
    and pre: "\<not> (0 < i \<and> word_at s (i - 1))" and n4: "4 \<le> ?n"
    and nw: "\<not> word_at s (Suc i + ?n)"
    by (simp_all add: cap_word_at_def Let_def)
  have run: "\<forall>j. Suc i \<le> j \<and> j < Suc i + ?n \<longrightarrow> j < length s \<and> lower_sv (s ! j)"
    using run_length[of "Suc i" "Suc i + ?n" s lower_sv] by simp
  have "word_at s i" using il up by (simp add: word_at_def upper_sv_word)
  with pre have bi: "boundary s i" by (simp add: boundary_def)
  have "Suc i \<le> i + ?n \<and> i + ?n < Suc i + ?n" using n4 by arith
  with run have "i + ?n < length s \<and> lower_sv (s ! (i + ?n))" by blast
  then have "word_at s (Suc i + ?n - 1)" by (simp add: word_at_def lower_sv_word)
  with nw have be: "boundary s (Suc i + ?n)" by (simp add: boundary_def)
  have "Suc i + ?n \<in> set (rep_ends (length s - Suc i) (ends (Cls lower_sv) s) 4 None (Suc i))"
    using n4 by (simp add: rep_ends_cls_iff)
  with bi il up be have "Suc i + ?n \<in> set (ends trim_re s i)"
    by (simp only: ends_trim_re simp_thms)
  then show "ends trim_re s i \<noteq> []" by auto
qed

lemma match_at_None: "match_at r s i = None \<longleftrightarrow> ends r s i = []"
  by (simp add: match_at_def split: list.splits)

lemma search_from_first:
  "pos \<le> st \<Longrightarrow> st \<le> length s \<Longrightarrow> match_at r s st = Some en \<Longrightarrow>
     (\<forall>i. pos \<le> i \<and> i < st \<longrightarrow> match_at r s i = None) \<Longrightarrow>
     search_from r s pos = Some (st, en)"
proof (induction r s pos rule: search_from.induct)
  case (1 r s pos)
  show ?case
  proof (cases "pos = st")
    case True
    then show ?thesis using "1.prems" by (simp add: search_from.simps[of r s st])
  next
    case False
    then have lt: "pos < st" using "1.prems" by arith
    then have n: "match_at r s pos = None" using "1.prems" by simp
    have nl: "\<not> length s < pos" using lt "1.prems" by arith
    have "search_from r s (Suc pos) = Some (st, en)"
      using lt "1.prems" by (intro "1.IH"[OF nl n]) auto
    then show ?thesis using n nl by (simp add: search_from.simps[of r s pos])
  qed
qed

section \<open>Facts about the section parser\<close>

lemma data_rows_article:
  assumes "r \<in> set (data_rows n d)"
  shows "is_article_number (artikelnummer r)"
proof -
  let ?ms = "finditer art_re d"
  from assms obtain j where j: "j < length ?ms"
    and r: "artikelnummer r = slice d (fst (?ms ! j)) (fst (?ms ! j) + 7)"
    by (auto simp: data_rows_def Let_def spec_row_def split: if_splits)
  obtain st en where m: "?ms ! j = (st, en)" by (cases "?ms ! j")
  with j have "(st, en) \<in> set (finditer_from art_re d 0)"
    unfolding finditer_def by (metis nth_mem)
  from finditer_from_sound[OF this] have "match_at art_re d st = Some en" by simp
  from art_re_match_digits[OF this] have
    len: "st + 7 \<le> length d" and dig: "\<forall>j. st \<le> j \<and> j < st + 7 \<longrightarrow> is_digit (d ! j)"
    by auto
  have a: "artikelnummer r = take 7 (drop st d)"
    using r m by (simp add: slice_def)
  have "length (artikelnummer r) = 7" using a len by simp
  moreover have "list_all is_digit (artikelnummer r)"
    unfolding a list_all_length
  proof (intro allI impI)
    fix k assume "k < length (take 7 (drop st d))"
    then have k: "k < 7" by simp
    then have "take 7 (drop st d) ! k = d ! (st + k)" using len by simp
    moreover have "is_digit (d ! (st + k))" using dig k by simp
    ultimately show "is_digit (take 7 (drop st d) ! k)" by simp
  qed
  ultimately show ?thesis by (simp add: is_article_number_def)
qed

lemma parse_sections_rows:
  "r \<in> set (parse_sections lg secs) \<Longrightarrow> \<exists>n d. r \<in> set (data_rows n d)"
proof (induction lg secs rule: parse_sections.induct)
  case (1 lg a b rest)
  then show ?case
    by (auto simp: process_pair_def Let_def split: prod.splits if_splits)
qed simp_all

lemma data_rows_name: "r \<in> set (data_rows n d) \<Longrightarrow> benamning r = n"
  by (auto simp: data_rows_def Let_def spec_row_def split: if_splits)

lemma process_pair_eq:
  "process_pair lg a b =
     (if accepted a then cleaned_name a else lg,
      data_rows (if accepted a then cleaned_name a else lg) b)"
  by (simp add: process_pair_def accepted_def cleaned_name_def Let_def not_less)

lemma last_accepted_Cons:
  "last_accepted (a # xs) =
     (case last_accepted xs of Some n \<Rightarrow> Some n
      | None \<Rightarrow> if accepted a then Some (cleaned_name a) else None)"
  by (simp add: last_accepted_def split: list.splits)

lemma last_accepted_Nil: "last_accepted [] = None"
  by (simp add: last_accepted_def)

lemma parse_sections_concat:
  "parse_sections lg secs =
     concat (map (\<lambda>i. data_rows
                   (if accepted (secs ! i) then cleaned_name (secs ! i)
                    else case last_accepted (take i secs) of Some n \<Rightarrow> n | None \<Rightarrow> lg)
                   (secs ! Suc i))
            [0..<length secs - 1])"
proof (induction lg secs rule: parse_sections.induct)
  case (1 lg a b rest)
  define F where "F = (\<lambda>lg secs i. data_rows
                   (if accepted (secs ! i) then cleaned_name (secs ! i)
                    else case last_accepted (take i secs) of Some n \<Rightarrow> n | None \<Rightarrow> lg)
                   (secs ! Suc i))"
  let ?lg' = "if accepted a then cleaned_name a else lg"
  have upt: "[0..<Suc (length rest)] = 0 # map Suc [0..<length rest]"
    by (simp add: upt_conv_Cons map_Suc_upt del: upt_Suc)
  have step: "F lg (a # b # rest) (Suc i) = F ?lg' (b # rest) i" for i
    unfolding F_def by (simp add: last_accepted_Cons split: option.splits)
  have zero: "F lg (a # b # rest) 0 = data_rows ?lg' b"
    unfolding F_def by (simp add: last_accepted_Nil)
  have "parse_sections lg (a # b # rest) = data_rows ?lg' b @ parse_sections ?lg' (b # rest)"
    by (simp add: process_pair_eq)
  also have "parse_sections ?lg' (b # rest) = concat (map (F ?lg' (b # rest)) [0..<length (b # rest) - 1])"
    unfolding F_def by (rule "1.IH"[of "process_pair lg a b"]) (simp_all add: process_pair_eq)
  also have "data_rows ?lg' b @ concat (map (F ?lg' (b # rest)) [0..<length (b # rest) - 1])
      = concat (map (F lg (a # b # rest)) [0..<length (a # b # rest) - 1])"
    by (simp add: upt comp_def step zero del: upt_Suc)
  finally show ?case unfolding F_def .
qed simp_all

lemma trim_last_spec_cut:
  assumes long: "30 < length spec"
    and cap: "cap_word_at spec st"
    and first: "\<forall>i<st. \<not> cap_word_at spec i"
  shows "trim_last_spec spec =
           (if 2 \<le> length (strip (take st spec)) then strip (take st spec) else spec)"
proof -
  from cap have "ends trim_re spec st \<noteq> []" by (simp add: trim_re_cap_word)
  then obtain en where m: "match_at trim_re spec st = Some en"
    by (cases "ends trim_re spec st") (auto simp: match_at_def)
  have none: "\<forall>i. 0 \<le> i \<and> i < st \<longrightarrow> match_at trim_re spec i = None"
    using first trim_re_cap_word[of spec] by (auto simp: match_at_None)
  have "st \<le> length spec" using cap by (simp add: cap_word_at_def)
  then have "search_from trim_re spec 0 = Some (st, en)"
    using m none by (intro search_from_first) auto
  then show ?thesis using long
    by (simp add: trim_last_spec_def re_search_def Let_def)
qed

section \<open>Facts about the name cleaner\<close>

lemma length_lstrip: "length (lstrip s) \<le> length s"
  by (simp add: lstrip_def length_dropWhile_le)

lemma length_rstrip: "length (rstrip s) \<le> length s"
  unfolding rstrip_def using length_dropWhile_le[of is_space "rev s"] by simp

lemma length_strip: "length (strip s) \<le> length s"
  unfolding strip_def using length_rstrip[of "lstrip s"] length_lstrip[of s] by arith

lemma length_join_le:
  "length (join sep xs) \<le> sum_list (map (\<lambda>x. length x + length sep) xs)"
  by (induction sep xs rule: join.induct) auto

lemma take_words_sum:
  "sum_list (map (\<lambda>w. length w + 1) (take_words len wds)) + len \<le> max len 150"
  by (induction len wds rule: take_words.induct) auto

lemma length_truncate_long: "length (truncate_long text) \<le> 150"
proof (cases "length text > 150")
  case True
  have "length (join '' '' (take_words 0 (split_ws text)))
        \<le> sum_list (map (\<lambda>w. length w + 1) (take_words 0 (split_ws text)))"
    using length_join_le[of "'' ''" "take_words 0 (split_ws text)"] by simp
  also have "\<dots> \<le> 150" using take_words_sum[of 0 "split_ws text"] by simp
  finally show ?thesis using True by (simp add: truncate_long_def)
next
  case False
  then show ?thesis by (simp add: truncate_long_def)
qed

lemma length_cleaned: "length (clean_product_name raw_text) \<le> 150"
proof -
  have "length (strip (truncate_long t)) \<le> 150" for t
    using length_strip[of "truncate_long t"] length_truncate_long[of t] by arith
  then show ?thesis by (simp add: clean_product_name_def Let_def)
qed

lemma rstrip_split: "rstrip s @ rev (takeWhile is_space (rev s)) = s"
proof -
  have "rev (takeWhile is_space (rev s) @ dropWhile is_space (rev s)) = s"
    by (simp only: takeWhile_dropWhile_id rev_rev_ident)
  then show ?thesis by (simp only: rev_append rstrip_def)
qed

lemma rstrip_prefix: "prefix (rstrip s) s"
  by (metis rstrip_split prefixI)

lemma lstrip_id: "s = [] \<or> \<not> is_space (hd s) \<Longrightarrow> lstrip s = s"
  by (cases s) (auto simp: lstrip_def)

lemma rstrip_id: "s = [] \<or> \<not> is_space (last s) \<Longrightarrow> rstrip s = s"
  by (cases s rule: rev_cases) (auto simp: rstrip_def)

lemma rstrip_last: "rstrip s \<noteq> [] \<Longrightarrow> \<not> is_space (last (rstrip s))"
  unfolding rstrip_def using hd_dropWhile[of is_space "rev s"] by (simp add: last_rev)

lemma lstrip_hd: "lstrip s \<noteq> [] \<Longrightarrow> \<not> is_space (hd (lstrip s))"
  unfolding lstrip_def by (rule hd_dropWhile)

lemma rstrip_hd: "rstrip s \<noteq> [] \<Longrightarrow> hd (rstrip s) = hd s"
  by (metis rstrip_split hd_append2)

lemma strip_strip: "strip (strip s) = strip s"
proof (cases "strip s = []")
  case True
  have "strip [] = []" by (simp add: strip_def lstrip_def rstrip_def)
  with True show ?thesis by simp
next
  case False
  then have ne: "rstrip (lstrip s) \<noteq> []" by (simp add: strip_def)
  then have lne: "lstrip s \<noteq> []" by (auto simp: rstrip_def)
  have "\<not> is_space (hd (strip s))"
    using rstrip_hd[OF ne] lstrip_hd[OF lne] by (simp add: strip_def)
  then have "lstrip (strip s) = strip s" by (simp add: lstrip_id)
  moreover have "\<not> is_space (last (strip s))"
    using rstrip_last[OF ne] by (simp add: strip_def)
  then have "rstrip (strip s) = strip s" by (simp add: rstrip_id)
  ultimately show ?thesis by (simp add: strip_def[of "strip s"])
qed

lemma not_space_period: "\<not> is_space CHR ''.''"
  by (simp add: is_space_def cp_def)

lemma find_chr_prefix:
  assumes "find_chr c z \<le> 5" "prefix y z"
  shows "find_chr c y \<le> 5"
proof (cases "c \<in> set y")
  case True
  from assms(2) obtain w where z: "z = y @ w" by (auto simp: prefix_def)
  have "takeWhile (\<lambda>x. x \<noteq> c) z = takeWhile (\<lambda>x. x \<noteq> c) y"
    unfolding z using True by (intro takeWhile_append1[of c]) auto
  moreover have "c \<in> set z" using True z by simp
  ultimately show ?thesis using assms(1) True by (simp add: find_chr_def)
next
  case False
  then show ?thesis by (simp add: find_chr_def)
qed

lemma find_chr_lstrip:
  assumes "find_chr CHR ''.'' s \<le> 5"
  shows "find_chr CHR ''.'' (lstrip s) \<le> 5"
proof -
  let ?a = "takeWhile is_space s" and ?b = "dropWhile is_space s"
  have s: "s = ?a @ ?b" by simp
  have q: "\<And>x. x \<in> set ?a \<Longrightarrow> x \<noteq> CHR ''.''"
    using not_space_period by (auto dest: set_takeWhileD)
  have "takeWhile (\<lambda>x. x \<noteq> CHR ''.'') (?a @ ?b) = ?a @ takeWhile (\<lambda>x. x \<noteq> CHR ''.'') ?b"
    by (rule takeWhile_append2) (rule q)
  then have len: "length (takeWhile (\<lambda>x. x \<noteq> CHR ''.'') ?b) \<le> length (takeWhile (\<lambda>x. x \<noteq> CHR ''.'') s)"
    by simp
  have "CHR ''.'' \<in> set ?b \<Longrightarrow> CHR ''.'' \<in> set s" by (auto dest: set_dropWhileD)
  with len assms show ?thesis
    by (auto simp: find_chr_def lstrip_def split: if_splits)
qed

lemma find_chr_strip: "find_chr CHR ''.'' s \<le> 5 \<Longrightarrow> find_chr CHR ''.'' (strip s) \<le> 5"
  unfolding strip_def by (rule find_chr_prefix[OF find_chr_lstrip rstrip_prefix])

lemma set_rstrip: "set (rstrip s) \<subseteq> set s"
  by (metis rstrip_split set_append Un_upper1)

lemma set_strip: "set (strip s) \<subseteq> set s"
  using set_rstrip[of "lstrip s"] set_dropWhileD[of _ is_space s]
  by (auto simp: strip_def lstrip_def)

lemma find_chr_cut_at_period: "find_chr CHR ''.'' (cut_at_period t) \<le> 5"
proof (cases "find_chr CHR ''.'' t > 5")
  case True
  then have idx: "nat (find_chr CHR ''.'' t) = length (takeWhile (\<lambda>x. x \<noteq> CHR ''.'') t)"
    by (simp add: find_chr_def split: if_splits)
  have "take (length (takeWhile (\<lambda>x. x \<noteq> CHR ''.'') t)) t = takeWhile (\<lambda>x. x \<noteq> CHR ''.'') t"
    by (simp add: takeWhile_eq_take[symmetric])
  then have "CHR ''.'' \<notin> set (take (nat (find_chr CHR ''.'' t)) t)"
    unfolding idx by (auto dest: set_takeWhileD)
  then have "CHR ''.'' \<notin> set (strip (take (nat (find_chr CHR ''.'' t)) t))"
    using set_strip by blast
  then show ?thesis using True by (simp add: cut_at_period_def Let_def find_chr_def)
next
  case False
  then show ?thesis by (simp add: cut_at_period_def Let_def)
qed

lemma join_Cons: "join sep (x # xs) = (if xs = [] then x else x @ sep @ join sep xs)"
  by (cases xs) simp_all

lemma join_prefix: "prefix xs ys \<Longrightarrow> prefix (join sep xs) (join sep ys)"
proof (induction xs arbitrary: ys)
  case Nil
  then show ?case by simp
next
  case (Cons x xs)
  then obtain ys' where ys: "ys = x # ys'" and p: "prefix xs ys'"
    by (cases ys) auto
  show ?case
  proof (cases "xs = []")
    case True
    then show ?thesis by (simp add: ys join_Cons)
  next
    case False
    then have "ys' \<noteq> []" using p by auto
    with False Cons.IH[OF p] show ?thesis by (simp add: ys join_Cons)
  qed
qed

lemma take_words_prefix: "prefix (take_words len wds) wds"
  by (induction len wds rule: take_words.induct) auto

lemma period_in_join:
  "CHR ''.'' \<in> set (join '' '' (split_ws_from cur s)) \<Longrightarrow> CHR ''.'' \<in> set cur \<union> set s"
  by (induction cur s rule: split_ws_from.induct) (auto simp: join_Cons split: if_splits)

lemma period_index_join:
  "length (takeWhile (\<lambda>x. x \<noteq> CHR ''.'') (join '' '' (split_ws_from cur s)))
     \<le> length (takeWhile (\<lambda>x. x \<noteq> CHR ''.'') (cur @ s))"
proof (induction cur s rule: split_ws_from.induct)
  case (1 cur)
  then show ?case by simp
next
  case (2 cur c s)
  show ?case
  proof (cases "is_space c")
    case False
    then show ?thesis using 2 by simp
  next
    case True
    then have c: "c \<noteq> CHR ''.''" using not_space_period by auto
    show ?thesis
    proof (cases "cur = []")
      case True
      with \<open>is_space c\<close> 2 c show ?thesis by simp
    next
      case False
      have ih: "length (takeWhile (\<lambda>x. x \<noteq> CHR ''.'') (join '' '' (split_ws_from [] s)))
             \<le> length (takeWhile (\<lambda>x. x \<noteq> CHR ''.'') s)"
        using 2(2)[OF \<open>is_space c\<close> False] by simp
      show ?thesis
        using \<open>is_space c\<close> False c ih length_takeWhile_le[of "\<lambda>x. x \<noteq> CHR ''.''" cur]
        by (auto simp: join_Cons takeWhile_append)
    qed
  qed
qed

lemma find_chr_truncate_long:
  assumes "find_chr CHR ''.'' t \<le> 5"
  shows "find_chr CHR ''.'' (truncate_long t) \<le> 5"
proof (cases "150 < length t")
  case False
  then show ?thesis using assms by (simp add: truncate_long_def)
next
  case True
  let ?z = "join '' '' (split_ws t)"
  have z: "find_chr CHR ''.'' ?z \<le> 5"
  proof (cases "CHR ''.'' \<in> set ?z")
    case False
    then show ?thesis by (simp add: find_chr_def)
  next
    case True
    then have "CHR ''.'' \<in> set t"
      using period_in_join[of "[]" t] by (simp add: split_ws_def)
    with assms have "length (takeWhile (\<lambda>x. x \<noteq> CHR ''.'') t) \<le> 5"
      by (simp add: find_chr_def)
    with period_index_join[of "[]" t] True show ?thesis
      by (simp add: find_chr_def split_ws_def)
  qed
  have "prefix (join '' '' (take_words 0 (split_ws t))) ?z"
    by (intro join_prefix take_words_prefix)
  from find_chr_prefix[OF z this] True show ?thesis
    by (simp add: truncate_long_def)
qed

lemma strip_loop_fixed:
  "0 < n \<Longrightarrow> strip t = t \<Longrightarrow> strip_step t = None \<Longrightarrow> strip_loop n t = t"
  by (cases n) (simp_all add: Let_def)

section \<open>Worked examples\<close>

text \<open>A catalog of one page with one product table; the article number carries the suffix E.\<close>

lemma example_suffix_E:
  "parse_catalog
     [''... 1234567 FooWidget ... Artikel Nr Size Color 1234567E 10 mm red Artikel Nr ...'']
   = [\<lparr>artikelnummer = ''1234567'', benamning = ''FooWidget'',
       kolumnrubriker = ''Size Color'', specifikationer = ''10 mm red''\<rparr>]"
  by code_simp

text \<open>
  A catalog whose first data section holds no article number and whose second name section
  cleans to a single character.
\<close>

lemma example_carried_name:
  "parse_catalog [''Kabel Artikel Nr - Artikel Nr H 1234567 x'']
   = [\<lparr>artikelnummer = ''1234567'', benamning = ''Kabel'',
       kolumnrubriker = ''H'', specifikationer = ''x''\<rparr>]"
  by code_simp

lemma example_no_articles: "finditer art_re '' - '' = []"
  by code_simp

lemma example_cleaned_Kabel: "cleaned_name ''Kabel '' = ''Kabel''"
  by code_simp

lemma example_dimension:
  "clean_product_name (''10 mm'' @ [c_sup2] @ '' 3x1,5 Kabel XYZ123 Skarvdosa'')
   = ''x1,5 Kabel XYZ123 Skarvdosa''"
  by code_simp

text \<open>A data section with two article numbers, each followed by a long spec text.\<close>

lemma example_two_specs:
  "finditer art_re
     '' H 1234567 10 Kabel is a long enough text to pass thirty characters 7654321 20 Kabel is a long enough text to pass thirty characters''
   = [(3, 10), (68, 75)]"
  by code_simp

lemma example_first_spec:
  "clean_spec
     '' H 1234567 10 Kabel is a long enough text to pass thirty characters 7654321 20 Kabel is a long enough text to pass thirty characters''
     [(3, 10), (68, 75)] 0
   = ''10 Kabel is a long enough text to pass thirty characters''"
  by code_simp

lemma example_last_spec:
  "clean_spec
     '' H 1234567 10 Kabel is a long enough text to pass thirty characters 7654321 20 Kabel is a long enough text to pass thirty characters''
     [(3, 10), (68, 75)] 1
   = ''20 Kabel is a long enough text to pass thirty characters''"
  by code_simp

lemma example_cap_word:
  "cap_word_at ''20 Kabel is a long enough text to pass thirty characters'' 3
   \<and> \<not> cap_word_at ''20 Kabel is a long enough text to pass thirty characters'' 0
   \<and> \<not> cap_word_at ''20 Kabel is a long enough text to pass thirty characters'' 1
   \<and> \<not> cap_word_at ''20 Kabel is a long enough text to pass thirty characters'' 2"
  by code_simp

lemma example_candidate:
  "strip (take 3 ''20 Kabel is a long enough text to pass thirty characters'') = ''20''"
  by code_simp

text \<open>Fifty-one exclamation marks before a name: one more than the loop has rounds.\<close>

lemma example_many_marks:
  "clean_product_name (replicate 51 CHR ''!'' @ ''Kabel'') = ''!Kabel''"
  by code_simp

lemma example_one_mark: "clean_product_name ''!Kabel'' = ''Kabel''"
  by code_simp

lemma example_clean_result:
  "clean_product_name ''IP44 2 m Kabel grov. Extra'' = ''Kabel grov''"
  by code_simp

lemma example_clean_fixed:
  "re_sub filler_re [] ''Kabel grov'' = ''Kabel grov'' \<and> strip_step ''Kabel grov'' = None"
  by code_simp

section \<open>The claims\<close>

text \<open>
  C1, as amended. When the data section of a pair holds no article number, the pair emits no
  row; the running name is nevertheless set from the pair's name section: it becomes that
  section's cleaned name when this has at least three characters, and stays as it was
  otherwise.
\<close>

theorem process_pair_no_articles:
  "finditer art_re data_section = [] \<Longrightarrow>
     process_pair last_good_name name_section data_section =
       (if length (cleaned_name name_section) < 3 then last_good_name
        else cleaned_name name_section, [])"
  by (simp add: process_pair_def data_rows_def cleaned_name_def Let_def)

theorem process_pair_no_articles_witness:
  "finditer art_re '' - '' = [] \<and> process_pair [] ''Kabel '' '' - '' = (''Kabel'', [])"
  using process_pair_no_articles[OF example_no_articles, of "[]" "''Kabel ''"]
  by (simp add: example_no_articles example_cleaned_Kabel)

text \<open>
  C1 as stated fails: the pair of \<open>''Kabel ''\<close> and \<open>'' - ''\<close> has no article number in its
  data section, yet the running name changes from empty to \<open>''Kabel''\<close>, and the row of the
  next pair carries that name.
\<close>

theorem running_name_changes_counterexample:
  "finditer art_re '' - '' = []
   \<and> fst (process_pair [] ''Kabel '' '' - '') \<noteq> []
   \<and> map benamning (parse_catalog [''Kabel Artikel Nr - Artikel Nr H 1234567 x'']) = [''Kabel'']"
proof -
  have "process_pair [] ''Kabel '' '' - '' = (''Kabel'', [])"
    by (simp add: process_pair_def data_rows_def example_no_articles
          example_cleaned_Kabel[unfolded cleaned_name_def] Let_def)
  then show ?thesis
    by (simp add: example_no_articles example_carried_name)
qed

text \<open>
  C2, as amended. With the suffix E the example document yields the row with article number
  1234567, column headers \<open>Size Color\<close> and spec text \<open>10 mm red\<close>. In general a match of
  the article pattern is seven digits followed either by the letter E, which is left out of
  the stored number, or directly by a position where no word character stands: no other
  trailing letter is accepted.
\<close>

theorem article_suffix_E:
  "parse_catalog
     [''... 1234567 FooWidget ... Artikel Nr Size Color 1234567E 10 mm red Artikel Nr ...'']
   = [\<lparr>artikelnummer = ''1234567'', benamning = ''FooWidget'',
       kolumnrubriker = ''Size Color'', specifikationer = ''10 mm red''\<rparr>]
   \<and> (\<forall>s st en. match_at art_re s st = Some en \<longrightarrow>
         (en = st + 8 \<and> st + 7 < length s \<and> s ! (st + 7) = CHR ''E'')
         \<or> (en = st + 7 \<and> \<not> word_at s (st + 7)))"
proof -
  have "(en = st + 8 \<and> st + 7 < length s \<and> s ! (st + 7) = CHR ''E'')
         \<or> (en = st + 7 \<and> \<not> word_at s (st + 7))"
    if "match_at art_re s st = Some en" for s st en
  proof -
    from that have "en \<in> set (ends art_re s st)"
      by (auto simp: match_at_def split: list.splits)
    then show ?thesis by (rule art_re_match_shape)
  qed
  with example_suffix_E show ?thesis by blast
qed

theorem article_suffix_E_witness:
  "match_at art_re ''1234567E'' 0 = Some 8 \<and> ''1234567E'' ! 7 = CHR ''E''
   \<and> match_at art_re ''1234567'' 0 = Some 7 \<and> \<not> word_at ''1234567'' 7"
proof -
  have a: "match_at art_re ''1234567E'' 0 = Some 8" by code_simp
  have b: "match_at art_re ''1234567'' 0 = Some 7" by code_simp
  from article_suffix_E have r: "\<And>s st en. match_at art_re s st = Some en \<Longrightarrow>
         (en = st + 8 \<and> st + 7 < length s \<and> s ! (st + 7) = CHR ''E'')
         \<or> (en = st + 7 \<and> \<not> word_at s (st + 7))"
    by blast
  from r[OF a] r[OF b] a b show ?thesis by simp
qed

text \<open>
  C2 as stated fails: with the suffix A, as in the specification's example, the digits are
  followed by a word character other than E, the pattern does not match and no row is
  emitted.
\<close>

theorem article_suffix_A_counterexample:
  "parse_catalog
     [''... 1234567 FooWidget ... Artikel Nr Size Color 1234567A 10 mm red Artikel Nr ...'']
   = []"
  by code_simp

text \<open>
  C4. Every row of \<open>parse_catalog\<close> has an article number of exactly seven characters, all
  of them decimal digits.
\<close>

theorem parse_catalog_article_numbers:
  "r \<in> set (parse_catalog pages) \<Longrightarrow>
     length (artikelnummer r) = 7 \<and> list_all is_digit (artikelnummer r)"
proof -
  assume "r \<in> set (parse_catalog pages)"
  then obtain n d where "r \<in> set (data_rows n d)"
    unfolding parse_catalog_def using parse_sections_rows by blast
  from data_rows_article[OF this] show ?thesis
    by (simp add: is_article_number_def)
qed

theorem parse_catalog_article_numbers_witness:
  "\<lparr>artikelnummer = ''1234567'', benamning = ''FooWidget'',
     kolumnrubriker = ''Size Color'', specifikationer = ''10 mm red''\<rparr>
     \<in> set (parse_catalog
         [''... 1234567 FooWidget ... Artikel Nr Size Color 1234567E 10 mm red Artikel Nr ...''])
   \<and> length ''1234567'' = 7 \<and> list_all is_digit ''1234567''"
proof -
  have h: "\<lparr>artikelnummer = ''1234567'', benamning = ''FooWidget'',
     kolumnrubriker = ''Size Color'', specifikationer = ''10 mm red''\<rparr>
     \<in> set (parse_catalog
         [''... 1234567 FooWidget ... Artikel Nr Size Color 1234567E 10 mm red Artikel Nr ...''])"
    by (simp add: example_suffix_E)
  from parse_catalog_article_numbers[OF h] h show ?thesis by simp
qed

text \<open>
  C5. Every row comes from some pair \<open>i\<close> and carries the name \<open>name_for\<close> gives that
  pair: the cleaned name of the pair's own name section when it has at least three
  characters, else the most recently accepted name of an earlier section, else the empty
  string. So a row's name is empty only when no section up to its own was accepted.
\<close>

theorem parse_catalog_names:
  assumes "r \<in> set (parse_catalog pages)"
  shows "\<exists>i. Suc i < length (sections_of pages)
            \<and> r \<in> set (data_rows (name_for (sections_of pages) i) (sections_of pages ! Suc i))
            \<and> benamning r = name_for (sections_of pages) i
            \<and> (benamning r = [] \<longrightarrow> (\<forall>j\<le>i. \<not> accepted (sections_of pages ! j)))"
proof -
  let ?secs = "sections_of pages"
  from assms obtain i where i: "i < length ?secs - 1"
    and r: "r \<in> set (data_rows (name_for ?secs i) (?secs ! Suc i))"
    unfolding parse_catalog_def parse_sections_concat[of "[]" ?secs] name_for_def
    by (auto simp del: upt_Suc)
  have nm: "benamning r = name_for ?secs i" using r by (rule data_rows_name)
  have "\<forall>j\<le>i. \<not> accepted (?secs ! j)" if e: "name_for ?secs i = []"
  proof -
    have own: "\<not> accepted (?secs ! i)"
      using e by (auto simp: name_for_def accepted_def)
    have "filter accepted (take i ?secs) = []"
    proof (rule ccontr)
      assume ne: "filter accepted (take i ?secs) \<noteq> []"
      then have "last (filter accepted (take i ?secs)) \<in> set (filter accepted (take i ?secs))"
        by (rule last_in_set)
      then have "accepted (last (filter accepted (take i ?secs)))" by simp
      then have "cleaned_name (last (filter accepted (take i ?secs))) \<noteq> []"
        by (auto simp: accepted_def)
      moreover have "name_for ?secs i = cleaned_name (last (filter accepted (take i ?secs)))"
        using own ne by (simp add: name_for_def last_accepted_def split: list.splits)
      ultimately show False using e by simp
    qed
    then have none: "\<forall>x \<in> set (take i ?secs). \<not> accepted x"
      by (simp add: filter_empty_conv)
    have "\<forall>j<i. \<not> accepted (?secs ! j)"
    proof (intro allI impI)
      fix j assume j: "j < i"
      then have "take i ?secs ! j = ?secs ! j" by simp
      moreover have "j < length (take i ?secs)" using i j by simp
      ultimately have "?secs ! j \<in> set (take i ?secs)" by (metis nth_mem)
      then show "\<not> accepted (?secs ! j)" using none by blast
    qed
    with own show ?thesis by (auto simp: le_less)
  qed
  then have e: "benamning r = [] \<longrightarrow> (\<forall>j\<le>i. \<not> accepted (?secs ! j))"
    using nm by simp
  have "Suc i < length ?secs" using i by arith
  with r nm e show ?thesis by blast
qed

theorem parse_catalog_names_witness:
  "\<lparr>artikelnummer = ''1234567'', benamning = ''Kabel'', kolumnrubriker = ''H'',
     specifikationer = ''x''\<rparr>
     \<in> set (parse_catalog [''Kabel Artikel Nr - Artikel Nr H 1234567 x''])
   \<and> (\<exists>i. Suc i < length (sections_of [''Kabel Artikel Nr - Artikel Nr H 1234567 x''])
          \<and> name_for (sections_of [''Kabel Artikel Nr - Artikel Nr H 1234567 x'']) i = ''Kabel'')"
proof -
  have h: "\<lparr>artikelnummer = ''1234567'', benamning = ''Kabel'', kolumnrubriker = ''H'',
     specifikationer = ''x''\<rparr>
     \<in> set (parse_catalog [''Kabel Artikel Nr - Artikel Nr H 1234567 x''])"
    by (simp add: example_carried_name)
  from parse_catalog_names[OF h] h show ?thesis by auto
qed

text \<open>C7. The cleaned name never has more than 150 characters.\<close>

theorem clean_product_name_length: "length (clean_product_name raw_text) \<le> 150"
  by (rule length_cleaned)

text \<open>
  C8, as amended. On the example input the cleaner strips the leading \<open>10 mm2 3\<close> (eight
  characters, the digit after the unit included) and returns
  \<open>x1,5 Kabel XYZ123 Skarvdosa\<close>: the result starts neither with a digit nor with a unit
  token, but it begins before \<open>Kabel\<close>.
\<close>

theorem dimension_example:
  "clean_product_name (''10 mm'' @ [c_sup2] @ '' 3x1,5 Kabel XYZ123 Skarvdosa'')
     = ''x1,5 Kabel XYZ123 Skarvdosa''
   \<and> clean_product_name (''10 mm'' @ [c_sup2] @ '' 3x1,5 Kabel XYZ123 Skarvdosa'')
     = drop 8 (''10 mm'' @ [c_sup2] @ '' 3x1,5 Kabel XYZ123 Skarvdosa'')
   \<and> \<not> is_digit (hd (clean_product_name (''10 mm'' @ [c_sup2] @ '' 3x1,5 Kabel XYZ123 Skarvdosa'')))
   \<and> re_match unit_re (clean_product_name (''10 mm'' @ [c_sup2] @ '' 3x1,5 Kabel XYZ123 Skarvdosa''))
     = None"
proof -
  have "\<not> is_digit CHR ''x''" by code_simp
  moreover have "re_match unit_re ''x1,5 Kabel XYZ123 Skarvdosa'' = None" by code_simp
  ultimately show ?thesis unfolding example_dimension by simp
qed

text \<open>
  C8 as stated fails: the result is longer than the text from \<open>Kabel\<close> on, so it does not
  begin at \<open>Kabel\<close> or later.
\<close>

theorem dimension_example_counterexample:
  "\<not> suffix (clean_product_name (''10 mm'' @ [c_sup2] @ '' 3x1,5 Kabel XYZ123 Skarvdosa''))
       ''Kabel XYZ123 Skarvdosa''"
proof
  assume "suffix (clean_product_name (''10 mm'' @ [c_sup2] @ '' 3x1,5 Kabel XYZ123 Skarvdosa''))
       ''Kabel XYZ123 Skarvdosa''"
  then have "length ''x1,5 Kabel XYZ123 Skarvdosa'' \<le> length ''Kabel XYZ123 Skarvdosa''"
    unfolding example_dimension by (rule suffix_length_le)
  then show False by simp
qed

text \<open>
  C6, as amended. Cleaning a cleaned name changes nothing whenever the cleaned name holds no
  filler sentence and no stripping rule applies to it: the cut at the period, the
  truncation to 150 characters and the final strip are then all without effect.
\<close>

theorem clean_product_name_idempotent_when_clean:
  assumes filler: "re_sub filler_re [] (clean_product_name s) = clean_product_name s"
    and step: "strip_step (clean_product_name s) = None"
  shows "clean_product_name (clean_product_name s) = clean_product_name s"
proof -
  let ?r = "clean_product_name s"
  have strip_nil: "strip [] = []" by (simp add: strip_def lstrip_def rstrip_def)
  have stripped: "strip ?r = ?r"
    by (simp add: clean_product_name_def Let_def strip_nil strip_strip)
  have per: "find_chr CHR ''.'' ?r \<le> 5"
  proof (cases "strip s = []")
    case True
    then show ?thesis by (simp add: clean_product_name_def find_chr_def)
  next
    case False
    then show ?thesis
      by (simp add: clean_product_name_def Let_def 
            find_chr_strip find_chr_truncate_long find_chr_cut_at_period)
  qed
  have len: "length ?r \<le> 150" by (rule length_cleaned)
  show ?thesis
  proof (cases "?r = []")
    case True
    then show ?thesis by (simp add: clean_product_name_def[of "[]"] strip_nil)
  next
    case False
    have loop: "strip_loop 50 ?r = ?r"
      by (rule strip_loop_fixed[OF _ stripped step]) simp
    have cut: "cut_at_period ?r = ?r" using per by (simp add: cut_at_period_def Let_def)
    have tr: "truncate_long ?r = ?r" using len by (simp add: truncate_long_def)
    have "clean_product_name ?r =
        strip (truncate_long (cut_at_period (strip_loop 50 (re_sub filler_re [] (strip ?r)))))"
      using False stripped by (simp add: clean_product_name_def[of ?r] Let_def)
    then show ?thesis by (simp only: stripped filler loop cut tr)
  qed
qed

theorem clean_product_name_idempotent_when_clean_witness:
  "re_sub filler_re [] (clean_product_name ''IP44 2 m Kabel grov. Extra'')
     = clean_product_name ''IP44 2 m Kabel grov. Extra''
   \<and> strip_step (clean_product_name ''IP44 2 m Kabel grov. Extra'') = None
   \<and> clean_product_name (clean_product_name ''IP44 2 m Kabel grov. Extra'') = ''Kabel grov''"
proof -
  have f: "re_sub filler_re [] (clean_product_name ''IP44 2 m Kabel grov. Extra'')
     = clean_product_name ''IP44 2 m Kabel grov. Extra''"
    unfolding example_clean_result using example_clean_fixed by blast
  have s: "strip_step (clean_product_name ''IP44 2 m Kabel grov. Extra'') = None"
    unfolding example_clean_result using example_clean_fixed by blast
  from clean_product_name_idempotent_when_clean[OF f s] f s show ?thesis
    by (simp add: example_clean_result)
qed

text \<open>
  C6 as stated fails: the loop runs at most 50 rounds and each round strips one leading
  exclamation mark, so of 51 marks one is left; cleaning the result again strips it.
\<close>

theorem clean_product_name_not_idempotent_counterexample:
  "clean_product_name (replicate 51 CHR ''!'' @ ''Kabel'') = ''!Kabel''
   \<and> clean_product_name (clean_product_name (replicate 51 CHR ''!'' @ ''Kabel'')) = ''Kabel''
   \<and> clean_product_name (clean_product_name (replicate 51 CHR ''!'' @ ''Kabel''))
       \<noteq> clean_product_name (replicate 51 CHR ''!'' @ ''Kabel'')"
  unfolding example_many_marks example_one_mark by simp

text \<open>
  C9, as amended. Only the spec text of the last article number of a data section is cut.
  When that text, with white space collapsed and the filler removed, has more than 30
  characters and its first capitalised word (an upper-case letter and at least four
  lower-case letters between word boundaries) starts at position \<open>st\<close>, the row gets the
  stripped text before the word if that has at least two characters, and the whole text
  otherwise. The rows of the earlier article numbers get their spec texts uncut.
\<close>

theorem last_spec_cut_before_word:
  assumes ms: "finditer art_re data_section = ms" and ne: "ms \<noteq> []"
    and long: "30 < length (clean_spec data_section ms (length ms - 1))"
    and cap: "cap_word_at (clean_spec data_section ms (length ms - 1)) st"
    and first: "\<forall>i<st. \<not> cap_word_at (clean_spec data_section ms (length ms - 1)) i"
  shows "map specifikationer (data_rows product_name data_section) =
           map (clean_spec data_section ms) [0..<length ms - 1] @
           [if 2 \<le> length (strip (take st (clean_spec data_section ms (length ms - 1))))
            then strip (take st (clean_spec data_section ms (length ms - 1)))
            else clean_spec data_section ms (length ms - 1)]"
proof -
  let ?n = "length ms - 1"
  have upt: "[0..<length ms] = [0..<?n] @ [?n]"
    using ne by (cases ms rule: rev_cases) simp_all
  have early: "specifikationer (spec_row pn ch data_section ms j) = clean_spec data_section ms j"
    if "j < ?n" for pn ch j
  proof -
    from that have "\<not> length ms \<le> j + 1" by arith
    then show ?thesis by (simp add: spec_row_def Let_def)
  qed
  have last: "specifikationer (spec_row pn ch data_section ms ?n) =
      trim_last_spec (clean_spec data_section ms ?n)" for pn ch
    using ne by (simp add: spec_row_def Let_def)
  have "map specifikationer (data_rows product_name data_section) =
      map (\<lambda>j. specifikationer (spec_row product_name
         (strip (re_sub ws_re '' '' (strip (slice data_section 0 (fst (ms ! 0))))))
         data_section ms j)) [0..<length ms]"
    using ms ne by (simp add: data_rows_def Let_def comp_def del: upt_Suc)
  also have "\<dots> = map (clean_spec data_section ms) [0..<?n] @
       [trim_last_spec (clean_spec data_section ms ?n)]"
    unfolding upt using early last by (simp del: upt_Suc)
  finally show ?thesis
    by (simp only: trim_last_spec_cut[OF long cap first])
qed

theorem last_spec_cut_before_word_witness:
  "finditer art_re
     '' H 1234567 10 Kabel is a long enough text to pass thirty characters 7654321 20 Kabel is a long enough text to pass thirty characters''
   = [(3, 10), (68, 75)]
   \<and> cap_word_at ''20 Kabel is a long enough text to pass thirty characters'' 3
   \<and> map specifikationer (data_rows ''n''
     '' H 1234567 10 Kabel is a long enough text to pass thirty characters 7654321 20 Kabel is a long enough text to pass thirty characters'')
   = [''10 Kabel is a long enough text to pass thirty characters'', ''20'']"
proof -
  let ?d = "'' H 1234567 10 Kabel is a long enough text to pass thirty characters 7654321 20 Kabel is a long enough text to pass thirty characters''"
  let ?ms = "[(3, 10), (68, 75)] :: (nat \<times> nat) list"
  let ?spec = "''20 Kabel is a long enough text to pass thirty characters''"
  have last: "clean_spec ?d ?ms (length ?ms - 1) = ?spec"
    using example_last_spec by simp
  have ne: "?ms \<noteq> []" by simp
  have long: "30 < length (clean_spec ?d ?ms (length ?ms - 1))"
    unfolding last by simp
  have cap: "cap_word_at (clean_spec ?d ?ms (length ?ms - 1)) 3"
    unfolding last using example_cap_word by blast
  have first: "\<forall>i<3. \<not> cap_word_at (clean_spec ?d ?ms (length ?ms - 1)) i"
    unfolding last using example_cap_word
    by (auto simp: less_Suc_eq numeral_3_eq_3 numeral_2_eq_2)
  have "map specifikationer (data_rows ''n'' ?d) =
      map (clean_spec ?d ?ms) [0..<length ?ms - 1] @
           [if 2 \<le> length (strip (take 3 (clean_spec ?d ?ms (length ?ms - 1))))
            then strip (take 3 (clean_spec ?d ?ms (length ?ms - 1)))
            else clean_spec ?d ?ms (length ?ms - 1)]"
    by (rule last_spec_cut_before_word[OF example_two_specs ne long cap first])
  also have "\<dots> = [''10 Kabel is a long enough text to pass thirty characters'', ''20'']"
    unfolding last example_candidate using example_first_spec by simp
  finally show ?thesis using example_two_specs example_cap_word by blast
qed

text \<open>
  C9 as stated fails: here the spec text of the last article number has more than 30
  characters and starts with a capitalised word; nothing stands before the word, and the
  row keeps the whole text.
\<close>

theorem last_spec_not_cut_counterexample:
  "30 < length ''Kabel is a long enough text to pass thirty characters''
   \<and> cap_word_at ''Kabel is a long enough text to pass thirty characters'' 0
   \<and> map specifikationer
       (parse_catalog [''Artikel Nr H 1234567 Kabel is a long enough text to pass thirty characters''])
     = [''Kabel is a long enough text to pass thirty characters'']"
  by code_simp

end
